theory Spec2Isabelle
  imports Main "HOL-Library.Word"
begin

unbundle bit_operations_syntax

section \<open>Go values\<close>

text \<open>
  A shallow embedding of the protocol layer of the HDHomeRun client: the packet codec
  (packet.go), the transaction client (client.go) and the discovery protocol
  (discover.go). Go's \<open>int\<close> is modelled as \<open>int\<close> (every value below is a length or
  an index into a slice, far from the 64-bit limit), \<open>byte\<close>, \<open>uint16\<close> and
  \<open>uint32\<close> as words of that width, a \<open>[]byte\<close> as a list of bytes.
\<close>

type_synonym byte = "8 word"
type_synonym uint16 = "16 word"
type_synonym uint32 = "32 word"

text \<open>
  Go error values. The sentinels keep their Go names; the messages built with
  \<open>fmt.Errorf\<close> and \<open>errors.New\<close> are constructors that carry the formatted
  argument; \<open>DeviceError\<close> is the type \<open>*Error\<close> with its \<open>Message\<close>;
  \<open>OtherError\<close> is any error value produced outside the package (the network
  connection, \<open>url.Parse\<close>, a context of the caller's own making).
\<close>

datatype error =
    ErrUnexpectedEOF
  | EOF
  | errInvalidChecksum
  | errTagLengthBuffer
  | Canceled
  | DeadlineExceeded
  | ExpectedGetsetReply uint16
  | MissingNameValue
  | UnexpectedQuery string
  | DeviceError string
  | ExpectedDiscoverReply uint16
  | UnexpectedDeviceTypeLength int
  | UnexpectedDeviceIDLength int
  | UnexpectedTunerCountLength int
  | NoDeviceType
  | NoDeviceID
  | retryableError error
  | OtherError string

text \<open>
  What a call does: it panics, it returns a non-nil error, or it returns a value.
\<close>

datatype 'a outcome = Panic | Err error | Ok 'a

definition obind :: "'a outcome \<Rightarrow> ('a \<Rightarrow> 'b outcome) \<Rightarrow> 'b outcome" where
  "obind m f = (case m of Panic \<Rightarrow> Panic | Err e \<Rightarrow> Err e | Ok x \<Rightarrow> f x)"

lemma obind_cong [fundef_cong]:
  "m = m' \<Longrightarrow> (\<And>x. m' = Ok x \<Longrightarrow> f x = f' x) \<Longrightarrow> obind m f = obind m' f'"
  by (cases m') (simp_all add: obind_def)

text \<open>
  Slices. A slice expression panics when its bounds are out of range. Go checks the
  upper bound of \<open>b[lo:hi]\<close> against the capacity of \<open>b\<close>; the model checks it
  against the length, which is never larger, so the model panics wherever Go does.
\<close>

definition index :: "'a list \<Rightarrow> int \<Rightarrow> 'a outcome" where
  "index b i = (if 0 \<le> i \<and> i < int (length b) then Ok (b ! nat i) else Panic)"

definition store :: "'a list \<Rightarrow> int \<Rightarrow> 'a \<Rightarrow> 'a list outcome" where
  "store b i v = (if 0 \<le> i \<and> i < int (length b) then Ok (b[nat i := v]) else Panic)"

definition slice :: "'a list \<Rightarrow> int \<Rightarrow> int \<Rightarrow> 'a list outcome" where
  "slice b lo hi =
     (if 0 \<le> lo \<and> lo \<le> hi \<and> hi \<le> int (length b)
      then Ok (take (nat (hi - lo)) (drop (nat lo) b)) else Panic)"

definition slice_from :: "'a list \<Rightarrow> int \<Rightarrow> 'a list outcome" where
  "slice_from b lo = slice b lo (int (length b))"

text \<open>
  A slice shares its array with the slice it was cut from: a write through the window
  \<open>b[lo:hi]\<close> is a write to \<open>b\<close>. \<open>write_back b lo w\<close> is \<open>b\<close> after the window
  that starts at \<open>lo\<close> has become \<open>w\<close>.
\<close>

definition write_back :: "'a list \<Rightarrow> int \<Rightarrow> 'a list \<Rightarrow> 'a list" where
  "write_back b lo w = take (nat lo) b @ w @ drop (nat lo + length w) b"

definition make_bytes :: "int \<Rightarrow> byte list outcome" where
  "make_bytes n = (if n < 0 then Panic else Ok (replicate (nat n) 0))"

text \<open>The builtin \<open>copy(dst, src)\<close>: the new \<open>dst\<close> and the number of bytes copied.\<close>

definition copy :: "'a list \<Rightarrow> 'a list \<Rightarrow> 'a list \<times> int" where
  "copy dst src =
     (let n = min (length dst) (length src) in (take n src @ drop n dst, int n))"

text \<open>The conversion \<open>byte(n)\<close> of an \<open>int\<close> keeps the low eight bits.\<close>

definition byte_of_int :: "int \<Rightarrow> byte" where
  "byte_of_int n = word_of_int n"

subsection \<open>encoding/binary\<close>

definition BigEndian_Uint16 :: "byte list \<Rightarrow> uint16 outcome" where
  "BigEndian_Uint16 b =
     obind (index b 1) (\<lambda>b1. obind (index b 0) (\<lambda>b0.
       Ok (ucast b1 OR push_bit 8 (ucast b0))))"

definition BigEndian_PutUint16 :: "byte list \<Rightarrow> uint16 \<Rightarrow> byte list outcome" where
  "BigEndian_PutUint16 b v =
     obind (index b 1) (\<lambda>_. obind (store b 0 (ucast (drop_bit 8 v))) (\<lambda>b.
       store b 1 (ucast v)))"

definition BigEndian_Uint32 :: "byte list \<Rightarrow> uint32 outcome" where
  "BigEndian_Uint32 b =
     obind (index b 3) (\<lambda>b3. obind (index b 2) (\<lambda>b2.
     obind (index b 1) (\<lambda>b1. obind (index b 0) (\<lambda>b0.
       Ok (ucast b3 OR push_bit 8 (ucast b2) OR push_bit 16 (ucast b1)
             OR push_bit 24 (ucast b0))))))"

definition LittleEndian_Uint32 :: "byte list \<Rightarrow> uint32 outcome" where
  "LittleEndian_Uint32 b =
     obind (index b 3) (\<lambda>b3. obind (index b 2) (\<lambda>b2.
     obind (index b 1) (\<lambda>b1. obind (index b 0) (\<lambda>b0.
       Ok (ucast b0 OR push_bit 8 (ucast b1) OR push_bit 16 (ucast b2)
             OR push_bit 24 (ucast b3))))))"

definition LittleEndian_PutUint32 :: "byte list \<Rightarrow> uint32 \<Rightarrow> byte list outcome" where
  "LittleEndian_PutUint32 b v =
     obind (index b 3) (\<lambda>_. obind (store b 0 (ucast v)) (\<lambda>b.
     obind (store b 1 (ucast (drop_bit 8 v))) (\<lambda>b.
     obind (store b 2 (ucast (drop_bit 16 v))) (\<lambda>b.
       store b 3 (ucast (drop_bit 24 v))))))"

subsection \<open>hash/crc32\<close>

text \<open>
  \<open>crc32.ChecksumIEEE\<close> is the CRC-32 of IEEE 802.3: the register starts at
  \<open>0xFFFFFFFF\<close>, every byte is folded into its low end and followed by eight shifts
  with the reflected polynomial \<open>0xEDB88320\<close>, and the result is complemented.
\<close>

definition crc_shift :: "uint32 \<Rightarrow> uint32" where
  "crc_shift c = (if bit c 0 then drop_bit 1 c XOR 0xEDB88320 else drop_bit 1 c)"

definition crc_update :: "uint32 \<Rightarrow> byte \<Rightarrow> uint32" where
  "crc_update c v = (crc_shift ^^ 8) (c XOR ucast v)"

definition ChecksumIEEE :: "byte list \<Rightarrow> uint32" where
  "ChecksumIEEE bs = NOT (foldl crc_update 0xFFFFFFFF bs)"

section \<open>The packet codec\<close>

definition largeTagLength :: int where
  "largeTagLength = 128"

record Tag =
  Type :: byte
  Data :: "byte list"

record Packet =
  Type :: uint16
  Tags :: "Tag list"

text \<open>The zero value of \<open>Packet\<close>, as \<open>new(Packet)\<close> and \<open>var p Packet\<close> give it.\<close>

definition new_Packet :: Packet where
  "new_Packet = \<lparr>Packet.Type = 0, Tags = []\<rparr>"

subsection \<open>The variable tag length\<close>

text \<open>
  \<open>writeTagLength\<close> writes through the two-byte window it is given: the result is
  the number of bytes the length takes and the window after the call. The two-byte
  form is written with \<open>|=\<close>, on top of what the window held.
\<close>

definition writeTagLength :: "int \<Rightarrow> byte list \<Rightarrow> (int \<times> byte list) outcome" where
  "writeTagLength n b =
     (if length b \<noteq> 2 then Err errTagLengthBuffer
      else if n < largeTagLength then
        obind (store b 0 (byte_of_int n)) (\<lambda>b. Ok (1, b))
      else
        obind (index b 0) (\<lambda>old0.
        obind (store b 0 (old0 OR (0x80 OR byte_of_int (n AND 0xff)))) (\<lambda>b.
        obind (index b 1) (\<lambda>old1.
        obind (store b 1 (old1 OR byte_of_int (drop_bit 7 n))) (\<lambda>b.
          Ok (2, b))))))"

definition readTagLength :: "byte list \<Rightarrow> (int \<times> int) outcome" where
  "readTagLength b =
     (if length b \<noteq> 2 then Err errTagLengthBuffer
      else
        obind (index b 0) (\<lambda>x0.
        if x0 AND 0x80 = 0 then Ok (uint x0, 1)
        else
          obind (index b 1) (\<lambda>x1.
          let b0 = (ucast (x0 AND 0x7f) :: uint16);
              b1 = push_bit 7 (ucast x1 :: uint16)
          in Ok (uint (b0 OR b1), 2))))"

subsection \<open>MarshalBinary\<close>

text \<open>The first loop: the number of bytes the tags take.\<close>

definition tags_count :: "Tag list \<Rightarrow> int" where
  "tags_count tags =
     foldl (\<lambda>count t.
              let tlen = (if int (length (Data t)) \<ge> largeTagLength then 2 else 1)
              in count + (1 + tlen + int (length (Data t))))
           0 tags"

text \<open>The second loop: the tags are written into \<open>b\<close> from index \<open>i\<close> on.\<close>

fun marshal_tags :: "byte list \<Rightarrow> int \<Rightarrow> Tag list \<Rightarrow> (byte list \<times> int) outcome" where
  "marshal_tags b i [] = Ok (b, i)"
| "marshal_tags b i (t # ts) =
     obind (store b i (Tag.Type t)) (\<lambda>b.
     let i = i + 1 in
     obind (slice b i (i + 2)) (\<lambda>w.
     obind (writeTagLength (int (length (Data t))) w) (\<lambda>(n, w).
     let b = write_back b i w;
         i = i + n in
     obind (slice_from b i) (\<lambda>dst.
     let (dst, copied) = copy dst (Data t);
         b = write_back b i dst;
         i = i + copied
     in marshal_tags b i ts))))"

definition MarshalBinary :: "Packet \<Rightarrow> byte list outcome" where
  "MarshalBinary p =
     (let count = tags_count (Tags p) in
      obind (make_bytes (2 + 2 + count + 4)) (\<lambda>b.
      obind (slice b 0 2) (\<lambda>w.
      obind (BigEndian_PutUint16 w (Packet.Type p)) (\<lambda>w.
      let b = write_back b 0 w in
      obind (slice b 2 4) (\<lambda>w.
      obind (BigEndian_PutUint16 w (word_of_int count)) (\<lambda>w.
      let b = write_back b 2 w in
      obind (marshal_tags b 4 (Tags p)) (\<lambda>(b, i).
      obind (slice b 0 (int (length b) - 4)) (\<lambda>body.
      let chk = ChecksumIEEE body in
      obind (slice_from b (int (length b) - 4)) (\<lambda>w.
      obind (LittleEndian_PutUint32 w chk) (\<lambda>w.
      Ok (write_back b (int (length b) - 4) w)))))))))))"

subsection \<open>UnmarshalBinary\<close>

text \<open>
  The loop over the tags, from index \<open>i\<close> to the checksum. The tag data is copied
  out of \<open>b\<close>, so a tag holds a list of its own.
\<close>

function unmarshal_tags :: "byte list \<Rightarrow> int \<Rightarrow> Tag list \<Rightarrow> Tag list outcome" where
  "unmarshal_tags b i tags =
     (if i < int (length b) - 4 then
        obind (index b i) (\<lambda>ty.
        obind (slice b (i + 1) (i + 1 + 2)) (\<lambda>w.
        obind (readTagLength w) (\<lambda>(tlen, consumed).
        obind (slice_from b (i + 1 + consumed)) (\<lambda>rest.
        if int (length rest) - 4 < tlen then Err ErrUnexpectedEOF
        else
          obind (slice b (i + 1 + consumed) (i + 1 + consumed + tlen)) (\<lambda>d.
          unmarshal_tags b (i + 1 + consumed + tlen)
            (tags @ [\<lparr>Tag.Type = ty, Data = d\<rparr>]))))))
      else Ok tags)"
  by pat_completeness auto
termination
proof (relation "measure (\<lambda>(b, i, tags). nat (int (length b) - i))", goal_cases)
  case 1
  show ?case by simp
next
  case (2 b i tags ty w x tlen consumed rest d)
  from \<open>readTagLength w = Ok x\<close> \<open>(tlen, consumed) = x\<close>
  have "0 \<le> tlen \<and> 1 \<le> consumed"
    by (auto simp: readTagLength_def obind_def Let_def
             split: if_splits outcome.splits)
  with \<open>i < int (length b) - 4\<close> show ?case by simp
qed

declare unmarshal_tags.simps [simp del]

text \<open>
  \<open>UnmarshalBinary\<close> fills the packet it is called on: \<open>p\<close> is the receiver before
  the call, the result is the receiver after a call that returned nil. With a declared
  length of zero the method returns before it touches the tags of the receiver.
\<close>

definition UnmarshalBinary :: "Packet \<Rightarrow> byte list \<Rightarrow> Packet outcome" where
  "UnmarshalBinary p b =
     (if int (length b) < 8 then Err ErrUnexpectedEOF
      else
        obind (slice_from b (int (length b) - 4)) (\<lambda>w.
        obind (LittleEndian_Uint32 w) (\<lambda>want.
        obind (slice b 0 (int (length b) - 4)) (\<lambda>body.
        let got = ChecksumIEEE body in
        if want \<noteq> got then Err errInvalidChecksum
        else
          obind (slice b 0 2) (\<lambda>w.
          obind (BigEndian_Uint16 w) (\<lambda>ty.
          let p = p\<lparr>Packet.Type := ty\<rparr> in
          obind (slice b 2 4) (\<lambda>w.
          obind (BigEndian_Uint16 w) (\<lambda>l.
          let length' = uint l in
          if length' \<noteq> int (length b) - 8 then Err ErrUnexpectedEOF
          else if length' = 0 then Ok p
          else
            obind (unmarshal_tags b 4 []) (\<lambda>tags.
            Ok (p\<lparr>Tags := tags\<rparr>))))))))))"

subsection \<open>The wire format of the tags\<close>

text \<open>
  The payload of a packet as the protocol describes it, independent of the loop in
  \<open>UnmarshalBinary\<close>: a sequence of tags, each one byte of type, a length field and
  that many bytes of data. The length field is one byte when its high bit is clear, and
  otherwise two bytes that give \<open>(byte0 & 0x7F) | (byte1 << 7)\<close>. The result is
  \<open>None\<close> when the length field or the data of some tag runs past the end of the
  payload, which is where the checksum begins.
\<close>

function spec_decode_tags :: "byte list \<Rightarrow> Tag list option" where
  "spec_decode_tags [] = Some []"
| "spec_decode_tags [ty] = None"
| "spec_decode_tags (ty # l0 # rest) =
     (if l0 AND 0x80 = 0 then
        (if unat l0 \<le> length rest
         then map_option (\<lambda>ts. \<lparr>Tag.Type = ty, Data = take (unat l0) rest\<rparr> # ts)
                (spec_decode_tags (drop (unat l0) rest))
         else None)
      else
        (case rest of
           [] \<Rightarrow> None
         | l1 # rest' \<Rightarrow>
             let n = unat ((ucast (l0 AND 0x7f) :: uint16) OR push_bit 7 (ucast l1)) in
             if n \<le> length rest'
             then map_option (\<lambda>ts. \<lparr>Tag.Type = ty, Data = take n rest'\<rparr> # ts)
                    (spec_decode_tags (drop n rest'))
             else None))"
  by pat_completeness auto
termination
  by (relation "measure length") auto


definition payload :: "byte list \<Rightarrow> byte list" where
  "payload b = take (length b - 8) (drop 4 b)"

definition packet_type :: "byte list \<Rightarrow> uint16" where
  "packet_type b = ucast (b ! 1) OR push_bit 8 (ucast (b ! 0))"

definition declared_length :: "byte list \<Rightarrow> int" where
  "declared_length b = uint (ucast (b ! 3) OR push_bit 8 (ucast (b ! 2)) :: uint16)"

definition stored_checksum :: "byte list \<Rightarrow> uint32" where
  "stored_checksum b =
     (let c = drop (length b - 4) b
      in ucast (c ! 0) OR push_bit 8 (ucast (c ! 1)) OR push_bit 16 (ucast (c ! 2))
           OR push_bit 24 (ucast (c ! 3)))"

definition tag_overrun :: "byte list \<Rightarrow> bool" where
  "tag_overrun b = (spec_decode_tags (payload b) = None)"

subsection \<open>What MarshalBinary writes\<close>

text \<open>
  The bytes of one tag, of a sequence of tags and of a whole packet as
  \<open>MarshalBinary\<close> lays them out; \<open>MarshalBinary_eq\<close> below proves that this is
  its output.
\<close>

definition tag_bytes :: "Tag \<Rightarrow> byte list" where
  "tag_bytes t =
     (let n = int (length (Data t)) in
      Tag.Type t #
      (if n < 128 then [byte_of_int n]
       else [0x80 OR byte_of_int (n AND 0xff), byte_of_int (drop_bit 7 n)]) @ Data t)"

definition tags_bytes :: "Tag list \<Rightarrow> byte list" where
  "tags_bytes ts = concat (map tag_bytes ts)"

definition packet_bytes :: "Packet \<Rightarrow> byte list" where
  "packet_bytes p =
     (let enc = tags_bytes (Tags p);
          cnt = (word_of_int (int (length enc)) :: uint16);
          hdr = [ucast (drop_bit 8 (Packet.Type p)), ucast (Packet.Type p),
                 ucast (drop_bit 8 cnt), ucast cnt];
          chk = ChecksumIEEE (hdr @ enc)
      in hdr @ enc @ [ucast chk, ucast (drop_bit 8 chk), ucast (drop_bit 16 chk),
                      ucast (drop_bit 24 chk)])"

section \<open>Strings\<close>

text \<open>
  A Go string is a sequence of bytes, and so is a \<open>string\<close> here: the conversions
  between \<open>string\<close> and \<open>[]byte\<close> keep every byte.
\<close>

definition string_of_bytes :: "byte list \<Rightarrow> string" where
  "string_of_bytes b = map (\<lambda>x. char_of (unat x)) b"

definition bytes_of_string :: "string \<Rightarrow> byte list" where
  "bytes_of_string s = map (\<lambda>c. of_nat (of_char c)) s"

definition TrimSuffix :: "'a list \<Rightarrow> 'a list \<Rightarrow> 'a list" where
  "TrimSuffix s suffix =
     (if length suffix \<le> length s \<and> drop (length s - length suffix) s = suffix
      then take (length s - length suffix) s else s)"

definition TrimPrefix :: "'a list \<Rightarrow> 'a list \<Rightarrow> 'a list" where
  "TrimPrefix s prefix' =
     (if take (length prefix') s = prefix' then drop (length prefix') s else s)"

definition bytesStr :: "byte list \<Rightarrow> string" where
  "bytesStr b = string_of_bytes (TrimSuffix b [0x00])"

definition strBytes :: "string \<Rightarrow> byte list" where
  "strBytes s = bytes_of_string s @ [0x00]"

section \<open>The constants of libhdhomerun\<close>

definition MaxPacketSize :: int where "MaxPacketSize = 1460"
definition TypeDiscoverRpy :: uint16 where "TypeDiscoverRpy = 0x0003"
definition TypeGetsetReq :: uint16 where "TypeGetsetReq = 0x0004"
definition TypeGetsetRpy :: uint16 where "TypeGetsetRpy = 0x0005"
definition TagDeviceType :: byte where "TagDeviceType = 0x01"
definition TagDeviceId :: byte where "TagDeviceId = 0x02"
definition TagGetsetName :: byte where "TagGetsetName = 0x03"
definition TagGetsetValue :: byte where "TagGetsetValue = 0x04"
definition TagErrorMessage :: byte where "TagErrorMessage = 0x05"
definition TagTunerCount :: byte where "TagTunerCount = 0x10"
definition TagBaseUrl :: byte where "TagBaseUrl = 0x2A"

section \<open>The transaction client\<close>

subsection \<open>The connection\<close>

text \<open>
  The \<open>net.Conn\<close> of a client is outside the program. It is modelled by the calls
  made on it so far and by what it answers: each answer is a function of the earlier
  calls and of the call itself, so that any deterministic peer is an instance.
  \<open>Write\<close> answers with its error (the client ignores the count), \<open>Read\<close> with
  the bytes it delivers and its error. A \<open>Read\<close> never delivers more bytes than the
  buffer it is given holds.
\<close>

datatype conn_call = SetDeadline int | Write "byte list" | Read int

record Conn =
  on_SetDeadline :: "conn_call list \<Rightarrow> int \<Rightarrow> error option"
  on_Write :: "conn_call list \<Rightarrow> byte list \<Rightarrow> error option"
  on_Read :: "conn_call list \<Rightarrow> int \<Rightarrow> byte list \<times> error option"

text \<open>
  The state of a \<open>Client\<close>: the calls made on its connection \<open>c\<close>, the receive
  buffer \<open>b\<close> and the timeout. The mutex is not modelled: the calls below run one
  at a time.
\<close>

record Client =
  calls :: "conn_call list"
  buf :: "byte list"
  timeout :: int

definition NewClient :: Client where
  "NewClient = \<lparr>calls = [], buf = replicate (nat MaxPacketSize) 0, timeout = 0\<rparr>"

definition SetTimeout :: "int \<Rightarrow> Client \<Rightarrow> Client" where
  "SetTimeout d cl = cl\<lparr>timeout := d\<rparr>"

definition conn_SetDeadline :: "Conn \<Rightarrow> int \<Rightarrow> Client \<Rightarrow> error option \<times> Client" where
  "conn_SetDeadline net t cl =
     (on_SetDeadline net (calls cl) t, cl\<lparr>calls := calls cl @ [SetDeadline t]\<rparr>)"

definition conn_Write :: "Conn \<Rightarrow> byte list \<Rightarrow> Client \<Rightarrow> error option \<times> Client" where
  "conn_Write net pb cl =
     (on_Write net (calls cl) pb, cl\<lparr>calls := calls cl @ [Write pb]\<rparr>)"

text \<open>
  \<open>c.c.Read(c.b)\<close>: the bytes delivered are written at the start of the buffer; the
  result is their number and the error.
\<close>

definition conn_Read :: "Conn \<Rightarrow> Client \<Rightarrow> (int \<times> error option) \<times> Client" where
  "conn_Read net cl =
     (let size = int (length (buf cl));
          (data, err) = on_Read net (calls cl) size;
          (b, n) = copy (buf cl) data
      in ((n, err), cl\<lparr>calls := calls cl @ [Read size], buf := b\<rparr>))"

subsection \<open>Execute\<close>

text \<open>
  \<open>now\<close> is what \<open>time.Now()\<close> returns, in the unit of the timeout. The result is
  what \<open>Execute\<close> returns together with the client after the call.
\<close>

definition Execute :: "Conn \<Rightarrow> int \<Rightarrow> Client \<Rightarrow> Packet \<Rightarrow> Packet outcome \<times> Client" where
  "Execute net now cl req =
     (let (derr, cl) =
            (if timeout cl \<noteq> 0 then conn_SetDeadline net (now + timeout cl) cl
             else (None, cl))
      in case derr of
           Some err \<Rightarrow> (Err err, cl)
         | None \<Rightarrow>
             (case MarshalBinary req of
                Panic \<Rightarrow> (Panic, cl)
              | Err err \<Rightarrow> (Err err, cl)
              | Ok pb \<Rightarrow>
                  (let (werr, cl) = conn_Write net pb cl
                   in case werr of
                        Some err \<Rightarrow> (Err err, cl)
                      | None \<Rightarrow>
                          (let ((n, rerr), cl) = conn_Read net cl
                           in case rerr of
                                Some err \<Rightarrow> (Err err, cl)
                              | None \<Rightarrow>
                                  (obind (slice (buf cl) 0 n)
                                     (UnmarshalBinary new_Packet), cl)))))"

subsection \<open>Query\<close>

definition unknownGetSet :: string where
  "unknownGetSet = ''unknown getset variable''"

definition errorPrefix :: string where
  "errorPrefix = ''ERROR: ''"

definition newError :: "byte list \<Rightarrow> error" where
  "newError b = DeviceError (TrimPrefix (bytesStr b) errorPrefix)"

text \<open>
  The loop of \<open>Query\<close> over the tags of the reply, with the variables \<open>name\<close> and
  \<open>value\<close>; \<open>None\<close> is the nil slice. The data of a tag that
  \<open>UnmarshalBinary\<close> built is never nil, so an assignment gives \<open>Some\<close>.
\<close>

fun query_tags ::
  "Tag list \<Rightarrow> byte list option \<Rightarrow> byte list option
     \<Rightarrow> (byte list option \<times> byte list option) outcome" where
  "query_tags [] name val = Ok (name, val)"
| "query_tags (t # ts) name val =
     (if Tag.Type t = TagGetsetName then query_tags ts (Some (Data t)) val
      else if Tag.Type t = TagGetsetValue then query_tags ts name (Some (Data t))
      else if Tag.Type t = TagErrorMessage then Err (newError (Data t))
      else query_tags ts name val)"

text \<open>What \<open>Query\<close> does with the reply of \<open>Execute\<close>.\<close>

definition Query_reply :: "byte list \<Rightarrow> Packet \<Rightarrow> byte list outcome" where
  "Query_reply queryb rep =
     (if Packet.Type rep \<noteq> TypeGetsetRpy then Err (ExpectedGetsetReply (Packet.Type rep))
      else
        obind (query_tags (Tags rep) None None) (\<lambda>(name, val).
        case (name, val) of
          (Some name, Some val) \<Rightarrow>
            if name \<noteq> queryb then Err (UnexpectedQuery (bytesStr name)) else Ok val
        | _ \<Rightarrow> Err MissingNameValue))"

definition Query :: "Conn \<Rightarrow> int \<Rightarrow> Client \<Rightarrow> string \<Rightarrow> byte list outcome \<times> Client" where
  "Query net now cl query =
     (let queryb = strBytes query;
          req = \<lparr>Packet.Type = TypeGetsetReq,
                 Tags = [\<lparr>Tag.Type = TagGetsetName, Data = queryb\<rparr>]\<rparr>;
          (rep, cl) = Execute net now cl req
      in (obind rep (Query_reply queryb), cl))"

subsection \<open>ForEachTuner\<close>

definition IsNotExist :: "error option \<Rightarrow> bool" where
  "IsNotExist err =
     (case err of
        None \<Rightarrow> False
      | Some (DeviceError message) \<Rightarrow> message = unknownGetSet
      | Some _ \<Rightarrow> False)"

text \<open>
  \<open>ForEachTuner\<close> asks tuner \<open>i\<close> for its debug information and then calls
  \<open>fn\<close> on it. What the device answers and what the callback returns are not
  the program's: \<open>debug i\<close> and \<open>fn i\<close> are the errors (or nil) of the two
  calls for tuner \<open>i\<close>, each tuner being asked once. The calls made are recorded.
  The loop has no bound of its own: with a device that always answers it does not
  return, and \<open>ForEachTuner_from\<close> is then \<open>None\<close>.
\<close>

datatype tuner_call = DebugCall int | FnCall int

partial_function (option) ForEachTuner_from ::
  "(int \<Rightarrow> error option) \<Rightarrow> (int \<Rightarrow> error option) \<Rightarrow> int \<Rightarrow> tuner_call list
     \<Rightarrow> (error option \<times> tuner_call list) option" where
  "ForEachTuner_from debug fn i tr =
     (case debug i of
        Some err \<Rightarrow>
          if IsNotExist (Some err) then Some (None, tr @ [DebugCall i])
          else Some (Some err, tr @ [DebugCall i])
      | None \<Rightarrow>
          (case fn i of
             Some err \<Rightarrow> Some (Some err, tr @ [DebugCall i, FnCall i])
           | None \<Rightarrow> ForEachTuner_from debug fn (i + 1) (tr @ [DebugCall i, FnCall i])))"

definition ForEachTuner ::
  "(int \<Rightarrow> error option) \<Rightarrow> (int \<Rightarrow> error option)
     \<Rightarrow> (error option \<times> tuner_call list) option" where
  "ForEachTuner debug fn = ForEachTuner_from debug fn 0 []"

section \<open>Discovery\<close>

type_synonym DeviceType = int

record DiscoveredDevice =
  ID :: string
  Addr :: string
  Type :: DeviceType
  URL :: "string option"
  Tuners :: int

subsection \<open>encoding/hex\<close>

definition hextable :: string where
  "hextable = ''0123456789abcdef''"

definition EncodeToString :: "byte list \<Rightarrow> string" where
  "EncodeToString src =
     concat (map (\<lambda>v. [hextable ! unat (drop_bit 4 v), hextable ! unat (v AND 0x0f)]) src)"

subsection \<open>parseTags and newDiscoveredDevice\<close>

text \<open>
  \<open>url.Parse\<close> belongs to the standard library: \<open>url_Parse\<close> is a parameter, the
  parsed URL or the error for each string.
\<close>

fun parseTags ::
  "(string \<Rightarrow> string outcome) \<Rightarrow> DiscoveredDevice \<Rightarrow> Tag list \<Rightarrow> DiscoveredDevice outcome" where
  "parseTags url_Parse d [] = Ok d"
| "parseTags url_Parse d (t # ts) =
     (if Tag.Type t = TagDeviceType then
        (let l = int (length (Data t)) in
         if l \<noteq> 4 then Err (UnexpectedDeviceTypeLength l)
         else obind (BigEndian_Uint32 (Data t)) (\<lambda>v.
              parseTags url_Parse (d\<lparr>DiscoveredDevice.Type := uint v\<rparr>) ts))
      else if Tag.Type t = TagDeviceId then
        (let l = int (length (Data t)) in
         if l \<noteq> 4 then Err (UnexpectedDeviceIDLength l)
         else parseTags url_Parse (d\<lparr>ID := EncodeToString (Data t)\<rparr>) ts)
      else if Tag.Type t = TagBaseUrl then
        obind (url_Parse (string_of_bytes (Data t))) (\<lambda>u.
        parseTags url_Parse (d\<lparr>URL := Some u\<rparr>) ts)
      else if Tag.Type t = TagTunerCount then
        (let l = int (length (Data t)) in
         if l \<noteq> 1 then Err (UnexpectedTunerCountLength l)
         else obind (index (Data t) 0) (\<lambda>v.
              parseTags url_Parse (d\<lparr>Tuners := uint v\<rparr>) ts))
      else parseTags url_Parse d ts)"

definition newDiscoveredDevice ::
  "(string \<Rightarrow> string outcome) \<Rightarrow> string \<Rightarrow> Packet \<Rightarrow> DiscoveredDevice outcome" where
  "newDiscoveredDevice url_Parse addr p =
     (if Packet.Type p \<noteq> TypeDiscoverRpy then Err (ExpectedDiscoverReply (Packet.Type p))
      else
        (let device = \<lparr>ID = [], Addr = addr, DiscoveredDevice.Type = 0, URL = None,
                        Tuners = 0\<rparr>
         in obind (parseTags url_Parse device (Tags p)) (\<lambda>device.
            if DiscoveredDevice.Type device = 0 then Err NoDeviceType
            else if ID device = [] then Err NoDeviceID
            else Ok device)))"

subsection \<open>Discover\<close>

text \<open>
  The socket and the context are outside the program. One call of \<open>discover\<close>
  makes one \<open>ReadFrom\<close>, and what it sees is a \<open>read_event\<close>: a datagram and the
  address it came from, or the error of the read together with what \<open>ctx.Err()\<close>
  returns when it is consulted after the failure (\<open>None\<close> is nil). The watcher
  goroutine and its channel are not modelled; what reaches \<open>discover\<close> of their
  work is the failed read after the socket is closed. The buffer of the read holds
  2048 bytes.
\<close>

datatype read_event = Received "byte list" string | ReadFailed error "error option"

definition discover ::
  "(string \<Rightarrow> string outcome) \<Rightarrow> read_event \<Rightarrow> DiscoveredDevice outcome" where
  "discover url_Parse ev =
     (case ev of
        ReadFailed err cerr \<Rightarrow>
          (if cerr = Some Canceled \<or> cerr = Some DeadlineExceeded then Err EOF
           else (case cerr of None \<Rightarrow> Err err | Some cerr \<Rightarrow> Err cerr))
      | Received data addr \<Rightarrow>
          (case UnmarshalBinary new_Packet (take 2048 data) of
             Panic \<Rightarrow> Panic
           | Err err \<Rightarrow> Err (retryableError err)
           | Ok p \<Rightarrow>
               (case newDiscoveredDevice url_Parse addr p of
                  Panic \<Rightarrow> Panic
                | Err err \<Rightarrow> Err (retryableError err)
                | Ok device \<Rightarrow> Ok device)))"

text \<open>
  The loop of \<open>Discover\<close> over the reads. With no event left the call is still
  blocked in \<open>ReadFrom\<close>: it has not returned, and the result is \<open>None\<close>.
\<close>

fun Discover_loop ::
  "(string \<Rightarrow> string outcome) \<Rightarrow> read_event list \<Rightarrow> DiscoveredDevice outcome option" where
  "Discover_loop url_Parse [] = None"
| "Discover_loop url_Parse (ev # evs) =
     (case discover url_Parse ev of
        Err (retryableError _) \<Rightarrow> Discover_loop url_Parse evs
      | r \<Rightarrow> Some r)"

text \<open>
  \<open>done\<close> is the state of the context when \<open>Discover\<close> is called: \<open>None\<close> when
  \<open>ctx.Done()\<close> is not ready, and otherwise what \<open>ctx.Err()\<close> returns.
\<close>

definition Discover ::
  "(string \<Rightarrow> string outcome) \<Rightarrow> error option \<Rightarrow> read_event list
     \<Rightarrow> DiscoveredDevice outcome option" where
  "Discover url_Parse done evs =
     (case done of
        Some cerr \<Rightarrow>
          (if cerr = Canceled \<or> cerr = DeadlineExceeded then Some (Err EOF)
           else Some (Err cerr))
      | None \<Rightarrow> Discover_loop url_Parse evs)"

subsection \<open>The calls of ForEachTuner\<close>

text \<open>
  \<open>rounds k\<close> are the calls of the first \<open>k\<close> rounds of the loop, each a debug
  query and then the callback; \<open>fn_calls\<close> are the tuners the callback was called
  on, in the order of the calls.
\<close>

definition rounds :: "nat \<Rightarrow> tuner_call list" where
  "rounds k = concat (map (\<lambda>m. [DebugCall (int m), FnCall (int m)]) [0..<k])"

fun fn_calls :: "tuner_call list \<Rightarrow> int list" where
  "fn_calls [] = []"
| "fn_calls (FnCall i # cs) = i # fn_calls cs"
| "fn_calls (DebugCall i # cs) = fn_calls cs"

section \<open>Basic facts\<close>

lemma obind_simps [simp]:
  "obind Panic f = Panic"
  "obind (Err e) f = Err e"
  "obind (Ok x) f = f x"
  by (simp_all add: obind_def)

lemma index_Cons_simps:
  "index (x # xs) 0 = Ok x"
  "index (x # y # xs) 1 = Ok y"
  "index (x # y # z # xs) 2 = Ok z"
  "index (x # y # z # u # xs) 3 = Ok u"
  by (simp_all add: index_def)

lemma store_Cons_simps:
  "store (x # xs) 0 v = Ok (v # xs)"
  "store (x # y # xs) 1 v = Ok (x # v # xs)"
  "store (x # y # z # xs) 2 v = Ok (x # y # v # xs)"
  "store (x # y # z # u # xs) 3 v = Ok (x # y # z # v # xs)"
  by (simp_all add: store_def)

lemma length_2_pair: "length w = 2 \<Longrightarrow> \<exists>x0 x1. w = [x0, x1]"
  by (cases w; cases "tl w") auto

lemma length_4_quad: "length w = 4 \<Longrightarrow> \<exists>x0 x1 x2 x3. w = [x0, x1, x2, x3]"
  by (cases w; cases "tl w"; cases "tl (tl w)"; cases "tl (tl (tl w))") auto

subsection \<open>The variable tag length\<close>

lemma writeTagLength_small:
  "n < 128 \<Longrightarrow> writeTagLength n [x0, x1] = Ok (1, [byte_of_int n, x1])"
  by (simp add: writeTagLength_def largeTagLength_def store_Cons_simps)

lemma writeTagLength_large:
  "128 \<le> n \<Longrightarrow> writeTagLength n [x0, x1] =
     Ok (2, [x0 OR (0x80 OR byte_of_int (n AND 0xff)), x1 OR byte_of_int (drop_bit 7 n)])"
  by (simp add: writeTagLength_def largeTagLength_def store_Cons_simps index_Cons_simps)

lemma readTagLength_pair:
  "readTagLength [x0, x1] =
     (if x0 AND 0x80 = 0 then Ok (uint x0, 1)
      else Ok (uint ((ucast (x0 AND 0x7f) :: uint16) OR push_bit 7 (ucast x1)), 2))"
  by (simp add: readTagLength_def index_Cons_simps)

lemma bit_0x80_byte: "bit (0x80 :: byte) j \<longleftrightarrow> j = 7"
proof -
  have e: "(0x80 :: byte) = 2 ^ 7" by simp
  show ?thesis unfolding e bit_exp_iff by (auto simp add: possible_bit_word)
qed

lemma bit_0x80_int: "bit (0x80 :: int) j \<longleftrightarrow> j = 7"
proof -
  have e: "(0x80 :: int) = 2 ^ 7" by simp
  show ?thesis unfolding e bit_exp_iff by auto
qed

lemma high_bit_set: "bit ((0x80 :: byte) OR x) 7"
  by (simp add: bit_or_iff)

lemma high_bit_test: "((0x80 :: byte) OR x) AND 0x80 \<noteq> 0"
proof -
  have "bit (((0x80 :: byte) OR x) AND 0x80) 7"
    by (simp add: bit_and_iff bit_or_iff)
  then show ?thesis by auto
qed

lemma small_byte:
  assumes "0 \<le> n" "n < 128"
  shows "byte_of_int n AND 0x80 = 0" "uint (byte_of_int n) = n" "\<not> bit (byte_of_int n) 7"
proof -
  show "uint (byte_of_int n) = n"
    using assms by (simp add: byte_of_int_def uint_word_of_int)
  have "take_bit 7 n = n" using assms by (simp add: take_bit_int_eq_self)
  then have nb: "\<not> bit n 7"
    by (metis bit_take_bit_iff order_less_irrefl)
  show b7: "\<not> bit (byte_of_int n) 7"
    using nb by (simp add: byte_of_int_def bit_word_of_int_iff)
  have "(0x80 :: byte) = push_bit 7 1" by simp
  then show "byte_of_int n AND 0x80 = 0"
    using b7 by (metis and_exp_eq_0_iff_not_bit push_bit_of_1)
qed

lemma large_value:
  assumes "0 \<le> n" "n < 32768"
  shows "(ucast (((0x80 :: byte) OR byte_of_int (n AND 0xff)) AND 0x7f) :: uint16)
           OR push_bit 7 (ucast (byte_of_int (drop_bit 7 n))) = word_of_int n"
proof (rule bit_word_eqI)
  fix k :: nat
  assume k: "k < LENGTH(16)"
  have hi: "\<not> bit n j" if "15 \<le> j" for j
  proof -
    have "take_bit 15 n = n" using assms by (simp add: take_bit_int_eq_self)
    then show ?thesis using that by (metis bit_take_bit_iff not_le)
  qed
  have m7: "(0x7f :: byte) = mask 7" by (simp add: mask_eq_exp_minus_1)
  have m8: "(0xff :: int) = mask 8" by (simp add: mask_eq_exp_minus_1)
  show "bit ((ucast (((0x80 :: byte) OR byte_of_int (n AND 0xff)) AND 0x7f) :: uint16)
               OR push_bit 7 (ucast (byte_of_int (drop_bit 7 n)))) k
          = bit (word_of_int n :: uint16) k"
    unfolding m7 m8 byte_of_int_def
    using k hi [of k]
    apply (simp add: bit_or_iff bit_and_iff bit_ucast_iff bit_push_bit_iff
        bit_word_of_int_iff bit_mask_iff bit_drop_bit_eq bit_0x80_byte)
    apply (cases "k < 7")
     apply (simp add: bit_0x80_int)
    apply (cases "k < 15")
     apply auto
    done
qed

lemma read_write_large:
  assumes "128 \<le> n" "n \<le> 32767"
  shows "readTagLength [0x80 OR byte_of_int (n AND 0xff), byte_of_int (drop_bit 7 n)]
           = Ok (n, 2)"
proof -
  have "uint (word_of_int n :: uint16) = n"
    using assms by (simp add: uint_word_of_int)
  then show ?thesis
    using assms large_value [of n]
    by (simp add: readTagLength_pair high_bit_test)
qed

lemma read_write_small:
  assumes "0 \<le> n" "n < 128"
  shows "readTagLength [byte_of_int n, x1] = Ok (n, 1)"
  using assms by (simp add: readTagLength_pair small_byte)

subsection \<open>The loop of UnmarshalBinary reads the wire format\<close>

lemma index_append: "index (pre @ x # post) (int (length pre)) = Ok x"
  by (simp add: index_def)

lemma slice_append:
  "slice (pre @ w @ post) (int (length pre)) (int (length pre) + int (length w)) = Ok w"
  by (simp add: slice_def)

lemma slice_from_append: "slice_from (pre @ post) (int (length pre)) = Ok post"
  by (simp add: slice_from_def slice_def)

lemma readTagLength_bounds:
  "readTagLength w = Ok (tlen, consumed) \<Longrightarrow> 0 \<le> tlen \<and> (consumed = 1 \<or> consumed = 2)"
  by (auto simp: readTagLength_def obind_def Let_def split: if_splits outcome.splits)

lemma unmarshal_tags_step:
  assumes "2 \<le> length tail" and "readTagLength [l0, x] = Ok (tlen, consumed)"
  shows "unmarshal_tags (pre @ ty # l0 # x # tail) (int (length pre)) acc =
     (if int (length tail) + 2 - consumed - 4 < tlen then Err ErrUnexpectedEOF
      else obind (slice (pre @ ty # l0 # x # tail) (int (length pre) + 1 + consumed)
                    (int (length pre) + 1 + consumed + tlen)) (\<lambda>d.
           unmarshal_tags (pre @ ty # l0 # x # tail) (int (length pre) + 1 + consumed + tlen)
             (acc @ [\<lparr>Tag.Type = ty, Data = d\<rparr>])))"
proof -
  let ?b = "pre @ ty # l0 # x # tail"
  have w: "slice ?b (int (length pre) + 1) (int (length pre) + 1 + 2) = Ok [l0, x]"
    using slice_append [of "pre @ [ty]" "[l0, x]" tail] by (simp add: add.commute)
  have c: "consumed = 1 \<or> consumed = 2"
    using readTagLength_bounds [OF assms(2)] by simp
  have r: "slice_from ?b (int (length pre) + 1 + consumed)
             = Ok (drop (nat (consumed - 1)) (x # tail))"
    using c slice_from_append [of "pre @ [ty, l0]" "x # tail"]
      slice_from_append [of "pre @ [ty, l0, x]" "tail"]
    by (auto simp add: add.commute)
  have l: "int (length (drop (nat (consumed - 1)) (x # tail))) = int (length tail) + 2 - consumed"
    using c by auto
  show ?thesis
    apply (subst unmarshal_tags.simps)
    using assms(1) w r l index_append [of pre ty "l0 # x # tail"] assms(2)
    apply (simp del: length_drop)
    done
qed

lemma unmarshal_tags_done:
  "length chk = 4 \<Longrightarrow> unmarshal_tags (pre @ chk) (int (length pre)) acc = Ok acc"
  by (subst unmarshal_tags.simps) simp

lemma readTagLength_total: "\<exists>tlen consumed. readTagLength [l0, x] = Ok (tlen, consumed)"
  by (simp add: readTagLength_pair)

lemma slice_mid:
  assumes "n \<le> length r"
  shows "slice (pre @ r @ post) (int (length pre)) (int (length pre) + int n) = Ok (take n r)"
  using assms by (simp add: slice_def)

lemma unmarshal_tags_parse:
  "length chk = 4 \<Longrightarrow>
   unmarshal_tags (pre @ r @ chk) (int (length pre)) acc =
     (case spec_decode_tags r of None \<Rightarrow> Err ErrUnexpectedEOF | Some ts \<Rightarrow> Ok (acc @ ts))"
proof (induction r arbitrary: pre acc rule: spec_decode_tags.induct)
  case 1
  then show ?case by (simp add: unmarshal_tags_done)
next
  case (2 ty)
  obtain c0 c1 c2 c3 where chk: "chk = [c0, c1, c2, c3]"
    using length_4_quad [OF \<open>length chk = 4\<close>] by blast
  obtain tlen consumed where rd: "readTagLength [c0, c1] = Ok (tlen, consumed)"
    using readTagLength_total by blast
  have "0 \<le> tlen \<and> (consumed = 1 \<or> consumed = 2)"
    using readTagLength_bounds [OF rd] .
  then show ?case
    using unmarshal_tags_step [of "[c2, c3]" c0 c1 tlen consumed pre ty acc] rd
    by (auto simp add: chk)
next
  case (3 ty l0 rest)
  note chk = \<open>length chk = 4\<close>
  show ?case
  proof (cases "l0 AND 0x80 = 0")
    case True
    obtain x tail where xt: "rest @ chk = x # tail"
      using chk by (cases "rest @ chk") auto
    then have lt: "int (length tail) = int (length rest) + 3"
proof -
      from xt have "length (rest @ chk) = length (x # tail)" by simp
      then show ?thesis using chk by simp
    qed
    have rd: "readTagLength [l0, x] = Ok (uint l0, 1)"
      using True by (simp add: readTagLength_pair)
    have b: "pre @ (ty # l0 # rest) @ chk = pre @ ty # l0 # x # tail"
      using xt by simp
    show ?thesis
    proof (cases "unat l0 \<le> length rest")
      case False
      then have "int (length rest) < uint l0" using uint_nat [of l0] by linarith
      then show ?thesis
        using unmarshal_tags_step [of tail l0 x "uint l0" 1 pre ty acc] rd lt True False
        unfolding b by simp
    next
      case fits: True
      then have nlt: "\<not> int (length rest) < uint l0" using uint_nat [of l0] by linarith
      have sl: "slice (pre @ ty # l0 # x # tail) (int (length pre) + 1 + 1)
                  (int (length pre) + 1 + 1 + uint l0) = Ok (take (unat l0) rest)"
        using slice_mid [of "unat l0" rest "pre @ [ty, l0]" chk] fits xt
        by (simp add: add.commute)
      have b2: "pre @ ty # l0 # x # tail
                  = (pre @ ty # l0 # take (unat l0) rest) @ drop (unat l0) rest @ chk"
        using xt [symmetric] by simp
      have i2: "int (length pre) + 1 + 1 + uint l0
                  = int (length (pre @ ty # l0 # take (unat l0) rest))"
        using fits by (simp add: min_def)
      have ih: "unmarshal_tags (pre @ ty # l0 # x # tail) (int (length pre) + 1 + 1 + uint l0)
                  (acc @ [\<lparr>Tag.Type = ty, Data = take (unat l0) rest\<rparr>])
                = (case spec_decode_tags (drop (unat l0) rest) of None \<Rightarrow> Err ErrUnexpectedEOF
                   | Some ts \<Rightarrow> Ok ((acc @ [\<lparr>Tag.Type = ty, Data = take (unat l0) rest\<rparr>]) @ ts))"
        unfolding i2 unfolding b2
        by (rule "3.IH"(1) [OF True fits chk])
      show ?thesis
        using unmarshal_tags_step [of tail l0 x "uint l0" 1 pre ty acc] rd lt True fits nlt sl ih
        unfolding b by (simp split: option.splits)
    qed
  next
    case hb: False
    show ?thesis
    proof (cases rest)
      case Nil
      obtain c0 c1 c2 c3 where c: "chk = [c0, c1, c2, c3]"
        using length_4_quad [OF chk] by blast
      define tl where "tl = uint ((ucast (l0 AND 0x7f) :: uint16) OR push_bit 7 (ucast c0))"
      have ge: "0 \<le> tl" by (simp add: tl_def)
      have rd: "readTagLength [l0, c0] = Ok (tl, 2)"
        using hb by (simp add: readTagLength_pair tl_def)
      show ?thesis
        using unmarshal_tags_step [OF _ rd, of "[c1, c2, c3]" pre ty acc] hb Nil ge
        by (simp add: c)
    next
      case (Cons l1 rest')
      define n where "n = unat ((ucast (l0 AND 0x7f) :: uint16) OR push_bit 7 (ucast l1))"
      define tl where "tl = uint ((ucast (l0 AND 0x7f) :: uint16) OR push_bit 7 (ucast l1))"
      have tln: "tl = int n" unfolding tl_def n_def by (rule uint_nat)
      have rd: "readTagLength [l0, l1] = Ok (tl, 2)"
        using hb by (simp add: readTagLength_pair tl_def)
      have b: "pre @ (ty # l0 # rest) @ chk = pre @ ty # l0 # l1 # (rest' @ chk)"
        using Cons by simp
      have p: "spec_decode_tags (ty # l0 # rest) =
                 (if n \<le> length rest'
                  then map_option (\<lambda>ts. \<lparr>Tag.Type = ty, Data = take n rest'\<rparr> # ts)
                         (spec_decode_tags (drop n rest'))
                  else None)"
        using hb Cons by (simp add: n_def Let_def)
      show ?thesis
      proof (cases "n \<le> length rest'")
        case False
        then show ?thesis
          using unmarshal_tags_step [OF _ rd, of "rest' @ chk" pre ty acc] chk tln
          unfolding b [symmetric] p by simp
      next
        case fits: True
        have sl: "slice (pre @ ty # l0 # l1 # (rest' @ chk)) (int (length pre) + 1 + 2)
                    (int (length pre) + 1 + 2 + tl) = Ok (take n rest')"
          using slice_mid [of n rest' "pre @ [ty, l0, l1]" chk] fits tln
          by (simp add: add.commute)
        have b2: "pre @ ty # l0 # l1 # (rest' @ chk)
                    = (pre @ ty # l0 # l1 # take n rest') @ drop n rest' @ chk"
          by simp
        have i2: "int (length pre) + 1 + 2 + tl
                    = int (length (pre @ ty # l0 # l1 # take n rest'))"
          using fits tln by (simp add: min_def)
        have ih: "unmarshal_tags (pre @ ty # l0 # l1 # (rest' @ chk))
                    (int (length pre) + 1 + 2 + tl)
                    (acc @ [\<lparr>Tag.Type = ty, Data = take n rest'\<rparr>])
                  = (case spec_decode_tags (drop n rest') of None \<Rightarrow> Err ErrUnexpectedEOF
                     | Some ts \<Rightarrow> Ok ((acc @ [\<lparr>Tag.Type = ty, Data = take n rest'\<rparr>]) @ ts))"
          unfolding i2 unfolding b2
          by (rule "3.IH"(2) [OF hb Cons n_def fits chk])
        show ?thesis
          using unmarshal_tags_step [OF _ rd, of "rest' @ chk" pre ty acc] chk tln fits sl ih
          unfolding b [symmetric] p by (simp split: option.splits)
      qed
    qed
  qed
qed


subsection \<open>UnmarshalBinary on the wire format\<close>

lemma BigEndian_Uint16_pair: "BigEndian_Uint16 [x0, x1] = Ok (ucast x1 OR push_bit 8 (ucast x0))"
  by (simp add: BigEndian_Uint16_def index_Cons_simps)

lemma LittleEndian_Uint32_quad:
  "LittleEndian_Uint32 [x0, x1, x2, x3] =
     Ok (ucast x0 OR push_bit 8 (ucast x1) OR push_bit 16 (ucast x2) OR push_bit 24 (ucast x3))"
  by (simp add: LittleEndian_Uint32_def index_Cons_simps)

lemma packet_split:
  assumes "8 \<le> length b"
  obtains h0 h1 h2 h3 pl c0 c1 c2 c3 where
    "b = [h0, h1, h2, h3] @ pl @ [c0, c1, c2, c3]"
proof -
  have "length (take 4 b) = 4" using assms by simp
  then obtain h0 h1 h2 h3 where h: "take 4 b = [h0, h1, h2, h3]"
    using length_4_quad by blast
  have "length (drop (length b - 4) b) = 4" using assms by simp
  then obtain c0 c1 c2 c3 where c: "drop (length b - 4) b = [c0, c1, c2, c3]"
    using length_4_quad by blast
  have "b = take 4 b @ take (length b - 8) (drop 4 b) @ drop (length b - 4) b"
  proof -
    have e: "length b - 8 + 4 = length b - 4" using assms by simp
    have "drop (length b - 4) b = drop (length b - 8) (drop 4 b)" by (simp add: e)
    then have "take (length b - 8) (drop 4 b) @ drop (length b - 4) b = drop 4 b"
      by (simp only: append_take_drop_id)
    then show ?thesis by (metis append_take_drop_id)
  qed
  then show ?thesis using h c that by metis
qed

lemma UnmarshalBinary_split:
  "UnmarshalBinary p ([h0, h1, h2, h3] @ pl @ [c0, c1, c2, c3]) =
     (if ucast c0 OR push_bit 8 (ucast c1) OR push_bit 16 (ucast c2) OR push_bit 24 (ucast c3)
           \<noteq> ChecksumIEEE ([h0, h1, h2, h3] @ pl)
      then Err errInvalidChecksum
      else if uint (ucast h3 OR push_bit 8 (ucast h2) :: uint16) \<noteq> int (length pl)
      then Err ErrUnexpectedEOF
      else if pl = [] then Ok (p\<lparr>Packet.Type := ucast h1 OR push_bit 8 (ucast h0)\<rparr>)
      else (case spec_decode_tags pl of
              None \<Rightarrow> Err ErrUnexpectedEOF
            | Some ts \<Rightarrow> Ok (p\<lparr>Packet.Type := ucast h1 OR push_bit 8 (ucast h0), Tags := ts\<rparr>)))"
proof -
  let ?b = "[h0, h1, h2, h3] @ pl @ [c0, c1, c2, c3]"
  have s1: "slice_from (h0 # h1 # h2 # h3 # pl @ [c0, c1, c2, c3]) (4 + int (length pl))
              = Ok [c0, c1, c2, c3]"
    using slice_from_append [of "[h0, h1, h2, h3] @ pl" "[c0, c1, c2, c3]"] by simp
  have s2: "slice (h0 # h1 # h2 # h3 # pl @ [c0, c1, c2, c3]) 0 (4 + int (length pl))
              = Ok (h0 # h1 # h2 # h3 # pl)"
    using slice_append [of "[]" "[h0, h1, h2, h3] @ pl" "[c0, c1, c2, c3]"] by simp
  have s3: "slice (h0 # h1 # h2 # h3 # pl @ [c0, c1, c2, c3]) 0 2 = Ok [h0, h1]"
    by (simp add: slice_def)
  have s4: "slice (h0 # h1 # h2 # h3 # pl @ [c0, c1, c2, c3]) 2 4 = Ok [h2, h3]"
    by (simp add: slice_def)
  have u: "unmarshal_tags (h0 # h1 # h2 # h3 # pl @ [c0, c1, c2, c3]) 4 [] =
             (case spec_decode_tags pl of None \<Rightarrow> Err ErrUnexpectedEOF | Some ts \<Rightarrow> Ok ts)"
    using unmarshal_tags_parse [of "[c0, c1, c2, c3]" "[h0, h1, h2, h3]" pl "[]"]
    by (simp split: option.splits)
  show ?thesis
    by (simp add: UnmarshalBinary_def s1 s2 s3 s4 u BigEndian_Uint16_pair
        LittleEndian_Uint32_quad Let_def split: option.splits)
qed


lemma UnmarshalBinary_eq:
  "UnmarshalBinary p b =
     (if length b < 8 then Err ErrUnexpectedEOF
      else if stored_checksum b \<noteq> ChecksumIEEE (take (length b - 4) b)
      then Err errInvalidChecksum
      else if declared_length b \<noteq> int (length b) - 8 then Err ErrUnexpectedEOF
      else if length b = 8 then Ok (p\<lparr>Packet.Type := packet_type b\<rparr>)
      else (case spec_decode_tags (payload b) of
              None \<Rightarrow> Err ErrUnexpectedEOF
            | Some ts \<Rightarrow> Ok (p\<lparr>Packet.Type := packet_type b, Tags := ts\<rparr>)))"
proof (cases "length b < 8")
  case True
  then show ?thesis by (simp add: UnmarshalBinary_def)
next
  case False
  then have "8 \<le> length b" by simp
  then obtain h0 h1 h2 h3 pl c0 c1 c2 c3
    where b: "b = [h0, h1, h2, h3] @ pl @ [c0, c1, c2, c3]"
    by (rule packet_split)
  let ?b = "[h0, h1, h2, h3] @ pl @ [c0, c1, c2, c3]"
  have "payload ?b = pl" "packet_type ?b = ucast h1 OR push_bit 8 (ucast h0)"
    "declared_length ?b = uint (ucast h3 OR push_bit 8 (ucast h2) :: uint16)"
    "stored_checksum ?b = ucast c0 OR push_bit 8 (ucast c1) OR push_bit 16 (ucast c2)
        OR push_bit 24 (ucast c3)"
    "take (length ?b - 4) ?b = [h0, h1, h2, h3] @ pl"
    "(length ?b = 8) = (pl = [])" "\<not> length ?b < 8" "int (length ?b) - 8 = int (length pl)"
    by (simp_all add: payload_def packet_type_def declared_length_def stored_checksum_def)
  then show ?thesis
    unfolding b using UnmarshalBinary_split [of p h0 h1 h2 h3 pl c0 c1 c2 c3]
    by (simp only: if_False)
qed

subsection \<open>Evaluating the checksum\<close>

lemma crc_update_unfold:
  "crc_update c v =
     crc_shift (crc_shift (crc_shift (crc_shift (crc_shift (crc_shift (crc_shift (crc_shift
       (c XOR ucast v))))))))"
  by (simp add: crc_update_def eval_nat_numeral)

lemma crc_shift_numeral:
  "crc_shift (numeral n) =
     (if bit (numeral n :: uint32) 0 then drop_bit 1 (numeral n) XOR 0xEDB88320
      else drop_bit 1 (numeral n))"
  "crc_shift 0 = 0"
  "crc_shift 1 = 0xEDB88320"
  by (simp_all add: crc_shift_def)

lemmas crc_eval = ChecksumIEEE_def crc_update_unfold crc_shift_numeral

lemma crc_check_value:
  "ChecksumIEEE [0x31, 0x32, 0x33, 0x34, 0x35, 0x36, 0x37, 0x38, 0x39] = 0xCBF43926"
  by (simp add: crc_eval)

subsection \<open>The checksum tells two messages apart that differ in one byte\<close>

lemma poly_top: "bit (0xEDB88320 :: uint32) 31"
  by simp

lemma drop_top: "\<not> bit (drop_bit 1 (c :: uint32)) 31"
  by (simp add: bit_drop_bit_eq bit_word_iff_drop_bit_and) 

lemma crc_shift_top: "bit (crc_shift c) 31 = bit c 0"
  using poly_top drop_top [of c] by (simp add: crc_shift_def bit_xor_iff)

lemma word_lsb_drop: "bit (c :: uint32) 0 = bit c' 0 \<Longrightarrow> drop_bit 1 c = drop_bit 1 c' \<Longrightarrow> c = c'"
proof (rule bit_word_eqI)
  fix n assume a: "bit c 0 = bit c' 0" "drop_bit 1 c = drop_bit 1 c'" "n < LENGTH(32)"
  show "bit c n = bit c' n"
  proof (cases n)
    case 0 then show ?thesis using a by simp
  next
    case (Suc m)
    have "bit (drop_bit 1 c) m = bit (drop_bit 1 c') m" using a by simp
    then show ?thesis using Suc by (simp add: bit_drop_bit_eq)
  qed
qed

lemma xor_cancel_right: "(a :: 'a :: len word) XOR x = b XOR x \<Longrightarrow> a = b"
proof -
  assume e: "a XOR x = b XOR x"
  have "(a XOR x) XOR x = a" "(b XOR x) XOR x = b" by (simp_all add: xor.assoc)
  with e show ?thesis by metis
qed

lemma xor_cancel_left: "(x :: 'a :: len word) XOR a = x XOR b \<Longrightarrow> a = b"
  using xor_cancel_right [of a x b] by (simp add: xor.commute)

lemma crc_shift_inj: "crc_shift c = crc_shift c' \<Longrightarrow> c = c'"
proof -
  assume e: "crc_shift c = crc_shift c'"
  then have l: "bit c 0 = bit c' 0" using crc_shift_top by metis
  then have "drop_bit 1 c = drop_bit 1 c'"
    using e by (auto simp add: crc_shift_def split: if_splits dest: xor_cancel_right)
  with l show ?thesis by (rule word_lsb_drop)
qed

lemma crc_shift_pow_inj: "(crc_shift ^^ n) c = (crc_shift ^^ n) c' \<Longrightarrow> c = c'"
  by (induction n) (auto dest: crc_shift_inj)

lemma crc_update_inj_state: "crc_update c v = crc_update c' v \<Longrightarrow> c = c'"
  unfolding crc_update_def by (drule crc_shift_pow_inj) (rule xor_cancel_right)

lemma ucast_byte_inj: "(ucast (v :: byte) :: uint32) = ucast v' \<Longrightarrow> v = v'"
proof -
  assume e: "(ucast v :: uint32) = ucast v'"
  have "ucast (ucast w :: uint32) = w" for w :: byte
    by (rule bit_word_eqI) (simp add: bit_ucast_iff)
  then show ?thesis using e by metis
qed

lemma crc_update_inj_byte: "crc_update c v = crc_update c v' \<Longrightarrow> v = v'"
  unfolding crc_update_def
  by (drule crc_shift_pow_inj) (auto dest: xor_cancel_left ucast_byte_inj)

lemma foldl_crc_inj: "foldl crc_update c bs = foldl crc_update c' bs \<Longrightarrow> c = c'"
  by (induction bs arbitrary: c c') (auto dest: crc_update_inj_state)

lemma crc_single_byte:
  assumes "x \<noteq> y"
  shows "ChecksumIEEE (pre @ x # post) \<noteq> ChecksumIEEE (pre @ y # post)"
proof
  assume "ChecksumIEEE (pre @ x # post) = ChecksumIEEE (pre @ y # post)"
  then have "foldl crc_update (crc_update (foldl crc_update 0xFFFFFFFF pre) x) post
           = foldl crc_update (crc_update (foldl crc_update 0xFFFFFFFF pre) y) post"
    by (simp add: ChecksumIEEE_def)
  then have "crc_update (foldl crc_update 0xFFFFFFFF pre) x
           = crc_update (foldl crc_update 0xFFFFFFFF pre) y"
    by (rule foldl_crc_inj)
  then have "x = y" by (rule crc_update_inj_byte)
  with assms show False by simp
qed

lemma flip_bit_neq:
  assumes "j < 8"
  shows "flip_bit j (x :: byte) \<noteq> x"
proof
  assume "flip_bit j x = x"
  then have "bit (flip_bit j x) j = bit x j" by simp
  then show False using assms by (simp add: bit_flip_bit_iff)
qed


lemma stored_checksum_update:
  "k < length b - 4 \<Longrightarrow> stored_checksum (b[k := x]) = stored_checksum b"
  by (simp add: stored_checksum_def drop_update_cancel)

lemma body_update:
  assumes "k < length b - 4"
  shows "\<exists>pre post. take (length b - 4) b = pre @ (b ! k) # post
           \<and> take (length (b[k := x]) - 4) (b[k := x]) = pre @ x # post"
proof -
  let ?body = "take (length b - 4) b"
  have kl: "k < length ?body" using assms by simp
  have 1: "?body = take k ?body @ (b ! k) # drop (Suc k) ?body"
    using kl by (metis id_take_nth_drop nth_take assms)
  have "take (length (b[k := x]) - 4) (b[k := x]) = ?body[k := x]"
    by (simp add: take_update_swap)
  also have "\<dots> = take k ?body @ x # drop (Suc k) ?body"
    using kl by (rule upd_conv_take_nth_drop)
  finally show ?thesis using 1 by blast
qed

subsection \<open>The output of MarshalBinary\<close>

lemma store_append: "store (pre @ x # post) (int (length pre)) v = Ok (pre @ v # post)"
  by (simp add: store_def)

lemma write_back_append:
  "length w = length w0 \<Longrightarrow> write_back (pre @ w0 @ post) (int (length pre)) w = pre @ w @ post"
  by (simp add: write_back_def)

lemma copy_fits:
  "length src \<le> length dst \<Longrightarrow> copy dst src = (src @ drop (length src) dst, int (length src))"
  by (simp add: copy_def Let_def min_def)

lemma length_tag_bytes:
  "length (tag_bytes t) =
     (if length (Data t) < 128 then 2 else 3) + length (Data t)"
  by (simp add: tag_bytes_def Let_def)

lemma marshal_tags_step:
  assumes "length (tag_bytes t) < m"
  shows "marshal_tags (pre @ replicate m 0) (int (length pre)) (t # ts) =
         marshal_tags ((pre @ tag_bytes t) @ replicate (m - length (tag_bytes t)) 0)
           (int (length (pre @ tag_bytes t))) ts"
proof -
  let ?d = "Data t" and ?ty = "Tag.Type t"
  let ?n = "int (length ?d)"
  obtain m' where m: "m = Suc (Suc (Suc m'))"
    using assms by (cases m; cases "m - 1"; cases "m - 2") (auto simp add: length_tag_bytes split: if_splits)
  have b0: "pre @ replicate m 0 = pre @ 0 # [0, 0] @ replicate m' 0"
    by (simp add: m)
  have st: "store (pre @ replicate m 0) (int (length pre)) ?ty
              = Ok (pre @ ?ty # [0, 0] @ replicate m' 0)"
    unfolding b0 by (rule store_append)
  have sl: "slice (pre @ ?ty # [0, 0] @ replicate m' 0) (int (length pre) + 1)
              (int (length pre) + 1 + 2) = Ok [0, 0]"
    using slice_append [of "pre @ [?ty]" "[0, 0]" "replicate m' 0"] by (simp add: add.commute)
  have wb: "write_back (pre @ ?ty # [0, 0] @ replicate m' 0) (int (length pre) + 1) [y0, y1]
              = pre @ ?ty # [y0, y1] @ replicate m' 0" for y0 y1 :: byte
    using write_back_append [of "[y0, y1]" "[0, 0]" "pre @ [?ty]" "replicate m' 0"]
    by (simp add: add.commute)
  show ?thesis
  proof (cases "?n < 128")
    case True
    have w: "writeTagLength ?n [0, 0] = Ok (1, [byte_of_int ?n, 0])"
      using True by (simp add: writeTagLength_small)
    have tb: "tag_bytes t = [?ty, byte_of_int ?n] @ ?d"
      using True by (simp add: tag_bytes_def Let_def)
    have fits: "length ?d \<le> Suc m'"
      using assms True by (simp add: length_tag_bytes m)
    have sf: "slice_from (pre @ ?ty # [byte_of_int ?n, 0] @ replicate m' 0)
                (int (length pre) + 1 + 1) = Ok (replicate (Suc m') 0)"
      using slice_from_append [of "pre @ [?ty, byte_of_int ?n]" "replicate (Suc m') 0"]
      by (simp add: add.commute)
    have cp: "copy (replicate (Suc m') (0 :: byte)) ?d
                = (?d @ replicate (Suc m' - length ?d) 0, ?n)"
      using fits by (simp add: copy_fits del: replicate.simps)
    have wb2: "write_back (pre @ ?ty # [byte_of_int ?n, 0] @ replicate m' 0)
                 (int (length pre) + 1 + 1) (?d @ replicate (Suc m' - length ?d) 0)
               = (pre @ [?ty, byte_of_int ?n]) @ (?d @ replicate (Suc m' - length ?d) 0) @ []"
      using write_back_append [of "?d @ replicate (Suc m' - length ?d) 0" "replicate (Suc m') 0"
          "pre @ [?ty, byte_of_int ?n]" "[]"] fits
      by (simp add: add.commute)
    have e1: "(pre @ tag_bytes t) @ replicate (m - length (tag_bytes t)) 0
                = (pre @ [?ty, byte_of_int ?n]) @ (?d @ replicate (Suc m' - length ?d) 0) @ []"
      using True by (simp add: tb m)
    have e2: "int (length (pre @ tag_bytes t)) = int (length pre) + 1 + 1 + ?n"
      by (simp add: tb)
    show ?thesis
      unfolding e1 e2
      by (simp only: marshal_tags.simps st obind_simps Let_def sl w prod.case wb sf cp wb2)
  next
    case False
    have w: "writeTagLength ?n [0, 0]
               = Ok (2, [0x80 OR byte_of_int (?n AND 0xff), byte_of_int (drop_bit 7 ?n)])"
      using False by (simp add: writeTagLength_large)
    let ?y0 = "0x80 OR byte_of_int (?n AND 0xff)" and ?y1 = "byte_of_int (drop_bit 7 ?n)"
    have tb: "tag_bytes t = [?ty, ?y0, ?y1] @ ?d"
      using False by (simp add: tag_bytes_def Let_def)
    have fits: "length ?d \<le> m'"
      using assms False by (simp add: length_tag_bytes m)
    have sf: "slice_from (pre @ ?ty # [?y0, ?y1] @ replicate m' 0)
                (int (length pre) + 1 + 2) = Ok (replicate m' 0)"
      using slice_from_append [of "pre @ [?ty, ?y0, ?y1]" "replicate m' 0"]
      by (simp add: add.commute)
    have cp: "copy (replicate m' (0 :: byte)) ?d = (?d @ replicate (m' - length ?d) 0, ?n)"
      using fits by (simp add: copy_fits)
    have wb2: "write_back (pre @ ?ty # [?y0, ?y1] @ replicate m' 0)
                 (int (length pre) + 1 + 2) (?d @ replicate (m' - length ?d) 0)
               = (pre @ [?ty, ?y0, ?y1]) @ (?d @ replicate (m' - length ?d) 0) @ []"
      using write_back_append [of "?d @ replicate (m' - length ?d) 0" "replicate m' 0"
          "pre @ [?ty, ?y0, ?y1]" "[]"] fits
      by (simp add: add.commute)
    have e1: "(pre @ tag_bytes t) @ replicate (m - length (tag_bytes t)) 0
                = (pre @ [?ty, ?y0, ?y1]) @ (?d @ replicate (m' - length ?d) 0) @ []"
      using False by (simp add: tb m)
    have e2: "int (length (pre @ tag_bytes t)) = int (length pre) + 1 + 2 + ?n"
      by (simp add: tb)
    show ?thesis
      unfolding e1 e2
      by (simp only: marshal_tags.simps st obind_simps Let_def sl w prod.case wb sf cp wb2)
  qed
qed

lemma marshal_tags_eq:
  "length (tags_bytes ts) < m \<Longrightarrow>
   marshal_tags (pre @ replicate m 0) (int (length pre)) ts =
     Ok (pre @ tags_bytes ts @ replicate (m - length (tags_bytes ts)) 0,
         int (length pre) + int (length (tags_bytes ts)))"
proof (induction ts arbitrary: pre m)
  case Nil
  then show ?case by (simp add: tags_bytes_def)
next
  case (Cons t ts)
  have l: "length (tag_bytes t) < m" "length (tags_bytes ts) < m - length (tag_bytes t)"
    using Cons.prems by (simp_all add: tags_bytes_def)
  show ?case
    unfolding marshal_tags_step [OF l(1)] Cons.IH [OF l(2)]
    by (simp add: tags_bytes_def)
qed


lemma foldl_count:
  "foldl (\<lambda>count t.
            count + (1 + (if largeTagLength \<le> int (length (Data t)) then 2 else 1)
                       + int (length (Data t)))) a ts
     = a + int (length (tags_bytes ts))"
  by (induction ts arbitrary: a)
     (auto simp add: tags_bytes_def length_tag_bytes largeTagLength_def Let_def)

lemma tags_count_eq: "tags_count ts = int (length (tags_bytes ts))"
  by (simp add: tags_count_def Let_def foldl_count)

lemma BigEndian_PutUint16_pair:
  "BigEndian_PutUint16 [x0, x1] v = Ok [ucast (drop_bit 8 v), ucast v]"
  by (simp add: BigEndian_PutUint16_def index_Cons_simps store_Cons_simps)

lemma LittleEndian_PutUint32_quad:
  "LittleEndian_PutUint32 [x0, x1, x2, x3] v =
     Ok [ucast v, ucast (drop_bit 8 v), ucast (drop_bit 16 v), ucast (drop_bit 24 v)]"
  by (simp add: LittleEndian_PutUint32_def index_Cons_simps store_Cons_simps)

lemma MarshalBinary_eq: "MarshalBinary p = Ok (packet_bytes p)"
proof -
  define enc where "enc = tags_bytes (Tags p)"
  define L where "L = length enc"
  define cnt where "cnt = (word_of_int (int L) :: uint16)"
  define t0 where "t0 = (ucast (drop_bit 8 (Packet.Type p)) :: byte)"
  define t1 where "t1 = (ucast (Packet.Type p) :: byte)"
  define n0 where "n0 = (ucast (drop_bit 8 cnt) :: byte)"
  define n1 where "n1 = (ucast cnt :: byte)"
  define chk where "chk = ChecksumIEEE ([t0, t1, n0, n1] @ enc)"
  define z :: "byte list" where "z = replicate (L + 4) 0"
  have c: "tags_count (Tags p) = int L"
    by (simp add: tags_count_eq enc_def L_def)
  have mk: "make_bytes (2 + 2 + int L + 4) = Ok ([] @ [0, 0] @ ([0, 0] @ z))"
    by (simp add: make_bytes_def z_def nat_add_distrib replicate_add [symmetric]
        numeral_eq_Suc)
  have s1: "slice ([] @ [0, 0] @ ([0, 0] @ z)) 0 2 = Ok [0, 0]"
    using slice_append [of "[]" "[0, 0 :: byte]" "[0, 0] @ z"] by simp
  have w1: "write_back ([] @ [0, 0] @ ([0, 0] @ z)) 0 [t0, t1] = [t0, t1] @ [0, 0] @ z"
    using write_back_append [of "[t0, t1]" "[0, 0]" "[]" "[0, 0] @ z"] by simp
  have s2: "slice ([t0, t1] @ [0, 0] @ z) 2 4 = Ok [0, 0]"
    using slice_append [of "[t0, t1]" "[0, 0 :: byte]" z] by simp
  have w2: "write_back ([t0, t1] @ [0, 0] @ z) 2 [n0, n1] = [t0, t1, n0, n1] @ z"
    using write_back_append [of "[n0, n1]" "[0, 0]" "[t0, t1]" z] by simp
  have mt: "marshal_tags ([t0, t1, n0, n1] @ z) 4 (Tags p)
              = Ok (([t0, t1, n0, n1] @ enc) @ [0, 0, 0, 0], 4 + int L)"
    using marshal_tags_eq [of "Tags p" "L + 4" "[t0, t1, n0, n1]"]
    by (simp add: z_def enc_def L_def numeral_eq_Suc)
  have len: "int (length (([t0, t1, n0, n1] @ enc) @ [0, 0, 0, 0 :: byte])) - 4
               = int (length ([t0, t1, n0, n1] @ enc))"
    by simp
  have s3: "slice (([t0, t1, n0, n1] @ enc) @ [0, 0, 0, 0]) 0
              (int (length ([t0, t1, n0, n1] @ enc))) = Ok ([t0, t1, n0, n1] @ enc)"
    using slice_append [of "[]" "[t0, t1, n0, n1] @ enc" "[0, 0, 0, 0]"] by simp
  have s4: "slice_from (([t0, t1, n0, n1] @ enc) @ [0, 0, 0, 0])
              (int (length ([t0, t1, n0, n1] @ enc))) = Ok [0, 0, 0, 0]"
    by (rule slice_from_append)
  have w3: "write_back (([t0, t1, n0, n1] @ enc) @ [0, 0, 0, 0])
              (int (length ([t0, t1, n0, n1] @ enc))) [y0, y1, y2, y3]
            = ([t0, t1, n0, n1] @ enc) @ [y0, y1, y2, y3]" for y0 y1 y2 y3 :: byte
    using write_back_append [of "[y0, y1, y2, y3]" "[0, 0, 0, 0]" "[t0, t1, n0, n1] @ enc" "[]"]
    by simp
  have lhs: "MarshalBinary p = Ok (([t0, t1, n0, n1] @ enc) @
               [ucast chk, ucast (drop_bit 8 chk), ucast (drop_bit 16 chk),
                ucast (drop_bit 24 chk)])"
    unfolding MarshalBinary_def
    by (simp only: Let_def c mk obind_simps s1 BigEndian_PutUint16_pair w1 s2 w2 mt prod.case
        len s3 s4 LittleEndian_PutUint32_quad w3 t0_def [symmetric] t1_def [symmetric]
        cnt_def [symmetric] n0_def [symmetric] n1_def [symmetric] chk_def [symmetric])
  show ?thesis
    unfolding lhs
    by (simp add: packet_bytes_def Let_def enc_def L_def cnt_def t0_def t1_def n0_def n1_def
        chk_def)
qed

subsection \<open>The rounds of ForEachTuner\<close>

lemma rounds_Suc: "rounds (Suc k) = rounds k @ [DebugCall (int k), FnCall (int k)]"
  by (simp add: rounds_def)

lemma fn_calls_append: "fn_calls (xs @ ys) = fn_calls xs @ fn_calls ys"
  by (induction xs rule: fn_calls.induct) simp_all

lemma fn_calls_rounds: "fn_calls (rounds k) = map int [0..<k]"
  by (induction k) (simp_all add: rounds_Suc fn_calls_append, simp add: rounds_def)

lemma ForEachTuner_from_rounds:
  assumes "\<forall>i<k. debug (int i) = None \<and> fn (int i) = None"
  shows "ForEachTuner_from debug fn 0 [] = ForEachTuner_from debug fn (int k) (rounds k)"
  using assms
proof (induction k)
  case 0
  then show ?case by (simp add: rounds_def)
next
  case (Suc k)
  then have "ForEachTuner_from debug fn 0 [] = ForEachTuner_from debug fn (int k) (rounds k)"
    by simp
  also have "\<dots> = ForEachTuner_from debug fn (int k + 1) (rounds k @ [DebugCall (int k), FnCall (int k)])"
    using Suc.prems by (subst ForEachTuner_from.simps) simp
  finally show ?case by (simp add: rounds_Suc add.commute)
qed

section \<open>The variable tag length at its boundary\<close>

text \<open>
  C8. A data length \<open>n\<close> below 128 is written as one byte that holds \<open>n\<close>, with the
  high bit clear, whatever the two-byte window held before, and \<open>readTagLength\<close> on
  the window gives back \<open>n\<close> and one byte consumed. A data length from 128 to 32767 is
  written as two bytes, the first with its high bit set, and \<open>readTagLength\<close> gives
  back \<open>n\<close> and two bytes consumed. The two-byte form is written with \<open>|=\<close>, so
  it is stated for the window that \<open>MarshalBinary\<close> passes: two bytes of a buffer fresh
  from \<open>make\<close>, not yet written, both zero.
\<close>

theorem tag_length_boundary:
  assumes "0 \<le> n" and "n \<le> 32767"
  shows "(n < 128 \<longrightarrow>
            writeTagLength n [x0, x1] = Ok (1, [byte_of_int n, x1])
          \<and> uint (byte_of_int n) = n \<and> \<not> bit (byte_of_int n) 7
          \<and> readTagLength [byte_of_int n, x1] = Ok (n, 1))
       \<and> (128 \<le> n \<longrightarrow>
            (\<exists>y0 y1. writeTagLength n [0, 0] = Ok (2, [y0, y1]) \<and> bit y0 7
                    \<and> readTagLength [y0, y1] = Ok (n, 2)))"
proof (intro conjI impI)
  assume small: "n < 128"
  show "writeTagLength n [x0, x1] = Ok (1, [byte_of_int n, x1])"
    using small by (rule writeTagLength_small)
  show "uint (byte_of_int n) = n" "\<not> bit (byte_of_int n) 7"
    using assms small by (simp_all add: small_byte)
  show "readTagLength [byte_of_int n, x1] = Ok (n, 1)"
    using assms small by (simp add: read_write_small)
next
  assume large: "128 \<le> n"
  have "writeTagLength n [0, 0]
          = Ok (2, [0x80 OR byte_of_int (n AND 0xff), byte_of_int (drop_bit 7 n)])"
    using large by (simp add: writeTagLength_large)
  moreover have "bit ((0x80 :: byte) OR byte_of_int (n AND 0xff)) 7"
    by (rule high_bit_set)
  moreover have "readTagLength [0x80 OR byte_of_int (n AND 0xff), byte_of_int (drop_bit 7 n)]
                   = Ok (n, 2)"
    using large assms by (simp add: read_write_large)
  ultimately show "\<exists>y0 y1. writeTagLength n [0, 0] = Ok (2, [y0, y1]) \<and> bit y0 7
                     \<and> readTagLength [y0, y1] = Ok (n, 2)"
    by blast
qed

text \<open>
  Length 127 takes a one-byte field and length 128 a two-byte field, and each is read
  back.
\<close>

theorem tag_length_boundary_witness:
  "writeTagLength 127 [0, 0] = Ok (1, [127, 0])
   \<and> readTagLength [127, 0] = Ok (127, 1)
   \<and> (\<exists>y0 y1. writeTagLength 128 [0, 0] = Ok (2, [y0, y1]) \<and> bit y0 7
             \<and> readTagLength [y0, y1] = Ok (128, 2))"
  using tag_length_boundary [of 127 0 0] tag_length_boundary [of 128]
  by (simp add: byte_of_int_def)

section \<open>Decoding is total\<close>

text \<open>
  C10. \<open>UnmarshalBinary\<close> returns a packet or an error on every input and never
  panics: each index and each slice expression of the decoder (the header fields, the
  two-byte window passed to \<open>readTagLength\<close>, each window of tag data) is within the
  bounds of the input, and \<open>readTagLength\<close> itself never panics. The loop over the
  tags terminates on every input (the termination proof of \<open>unmarshal_tags\<close>).
\<close>

theorem UnmarshalBinary_total:
  "UnmarshalBinary p b \<noteq> Panic \<and> readTagLength w \<noteq> Panic"
proof
  show "UnmarshalBinary p b \<noteq> Panic"
    by (simp add: UnmarshalBinary_eq split: option.splits)
  show "readTagLength w \<noteq> Panic"
  proof (cases "length w = 2")
    case True
    then obtain x0 x1 where "w = [x0, x1]" using length_2_pair by blast
    then show ?thesis by (simp add: readTagLength_pair)
  next
    case False
    then show ?thesis by (simp add: readTagLength_def)
  qed
qed

section \<open>When decoding fails\<close>

text \<open>
  C2. \<open>UnmarshalBinary\<close> returns an error exactly when the input is shorter than 8
  bytes, or the CRC-32 over all bytes but the last four differs from the stored
  little-endian checksum, or the declared big-endian payload length is not the length of
  the input minus 8, or some tag runs past the position where the checksum begins
  (\<open>tag_overrun\<close>: the data of a tag, or already its length field, does not fit in
  the payload). A valid input of 8 bytes, with a declared length of 0, decodes into a
  fresh packet with no tags.
\<close>

theorem decode_error_iff:
  "((\<exists>e. UnmarshalBinary p b = Err e) \<longleftrightarrow>
      (length b < 8
       \<or> ChecksumIEEE (take (length b - 4) b) \<noteq> stored_checksum b
       \<or> declared_length b \<noteq> int (length b) - 8
       \<or> tag_overrun b))
   \<and> (length b = 8 \<and> ChecksumIEEE (take (length b - 4) b) = stored_checksum b
        \<and> declared_length b = 0 \<longrightarrow>
      UnmarshalBinary new_Packet b = Ok \<lparr>Packet.Type = packet_type b, Tags = []\<rparr>)"
proof
  have empty: "tag_overrun b \<Longrightarrow> length b \<noteq> 8"
    by (auto simp add: tag_overrun_def payload_def)
  show "(\<exists>e. UnmarshalBinary p b = Err e) \<longleftrightarrow>
      (length b < 8
       \<or> ChecksumIEEE (take (length b - 4) b) \<noteq> stored_checksum b
       \<or> declared_length b \<noteq> int (length b) - 8
       \<or> tag_overrun b)"
    using empty
    by (auto simp add: UnmarshalBinary_eq tag_overrun_def split: option.splits)
  show "length b = 8 \<and> ChecksumIEEE (take (length b - 4) b) = stored_checksum b
        \<and> declared_length b = 0 \<longrightarrow>
      UnmarshalBinary new_Packet b = Ok \<lparr>Packet.Type = packet_type b, Tags = []\<rparr>"
  proof (intro impI, elim conjE)
    assume "length b = 8" "ChecksumIEEE (take (length b - 4) b) = stored_checksum b"
      "declared_length b = 0"
    then show "UnmarshalBinary new_Packet b = Ok \<lparr>Packet.Type = packet_type b, Tags = []\<rparr>"
      unfolding UnmarshalBinary_eq [of new_Packet b] by (simp add: new_Packet_def)
  qed
qed

text \<open>The eight bytes of an empty get/set reply decode to a packet without tags.\<close>

theorem decode_error_iff_witness:
  "UnmarshalBinary new_Packet [0, 5, 0, 0, 247, 29, 143, 39] = Ok \<lparr>Packet.Type = 5, Tags = []\<rparr>
   \<and> \<not> (\<exists>e. UnmarshalBinary new_Packet [0, 5, 0, 0, 247, 29, 143, 39] = Err e)"
  using decode_error_iff [of new_Packet "[0, 5, 0, 0, 247, 29, 143, 39]"]
  by (simp add: crc_eval stored_checksum_def declared_length_def packet_type_def
      tag_overrun_def payload_def)

section \<open>Checksum sensitivity\<close>

text \<open>
  C9. When \<open>UnmarshalBinary\<close> decodes \<open>b\<close>, flipping bit \<open>j\<close> of the byte at any
  position \<open>k\<close> before the last four bytes gives an input on which
  \<open>UnmarshalBinary\<close> fails with \<open>errInvalidChecksum\<close>: the CRC-32 over all but the
  last four bytes is no longer the stored checksum.
\<close>

theorem checksum_sensitivity:
  assumes "UnmarshalBinary p b = Ok q" and "k < length b - 4" and "j < 8"
  shows "UnmarshalBinary p' (b[k := flip_bit j (b ! k)]) = Err errInvalidChecksum"
proof -
  let ?b' = "b[k := flip_bit j (b ! k)]"
  from assms(1) have len: "\<not> length b < 8"
    and chk: "stored_checksum b = ChecksumIEEE (take (length b - 4) b)"
    by (auto simp add: UnmarshalBinary_eq split: if_splits)
  obtain pre post where body: "take (length b - 4) b = pre @ (b ! k) # post"
    and body': "take (length ?b' - 4) ?b' = pre @ flip_bit j (b ! k) # post"
    using body_update [OF assms(2)] by blast
  have "ChecksumIEEE (take (length ?b' - 4) ?b') \<noteq> ChecksumIEEE (take (length b - 4) b)"
    unfolding body body' using flip_bit_neq [OF assms(3)] by (rule crc_single_byte)
  then have "stored_checksum ?b' \<noteq> ChecksumIEEE (take (length ?b' - 4) ?b')"
    using chk stored_checksum_update [OF assms(2)] by metis
  moreover have "\<not> length ?b' < 8" using len by simp
  ultimately show ?thesis
    unfolding UnmarshalBinary_eq [of p' ?b'] by simp
qed

text \<open>
  The empty get/set reply with the low bit of its second byte flipped (type 5 becomes
  type 4) is refused for its checksum.
\<close>

theorem checksum_sensitivity_witness:
  "UnmarshalBinary new_Packet [0, 5, 0, 0, 247, 29, 143, 39] = Ok \<lparr>Packet.Type = 5, Tags = []\<rparr>
   \<and> UnmarshalBinary new_Packet [0, 4, 0, 0, 247, 29, 143, 39] = Err errInvalidChecksum"
proof -
  have ok: "UnmarshalBinary new_Packet [0, 5, 0, 0, 247, 29, 143, 39]
              = Ok \<lparr>Packet.Type = 5, Tags = []\<rparr>"
    by (simp add: UnmarshalBinary_eq crc_eval stored_checksum_def declared_length_def
        packet_type_def new_Packet_def)
  have f: "flip_bit 0 (5 :: byte) = 4" by (simp add: flip_bit_eq_xor)
  show ?thesis
    using ok checksum_sensitivity [OF ok, of 1 0 new_Packet] f by simp
qed

section \<open>The round trip of the codec\<close>

text \<open>
  C1. Re-encoding a decoded packet does not always give back the bytes that were
  decoded. \<open>readTagLength\<close> accepts the two-byte form of a length below 128, and
  \<open>writeTagLength\<close> writes such a length in one byte. The eleven bytes below are a
  get/set reply with one tag of type 4 whose empty data is announced by the length
  field \<open>80 00\<close>: they decode, and the packet encodes to ten bytes. The fuzzing
  entry point of the package panics on exactly this difference.
\<close>

theorem roundtrip_noncanonical_length:
  "UnmarshalBinary new_Packet [0, 5, 0, 3, 4, 0x80, 0, 180, 209, 158, 227]
     = Ok \<lparr>Packet.Type = 5, Tags = [\<lparr>Tag.Type = 4, Data = []\<rparr>]\<rparr>
   \<and> MarshalBinary \<lparr>Packet.Type = 5, Tags = [\<lparr>Tag.Type = 4, Data = []\<rparr>]\<rparr>
     = Ok [0, 5, 0, 2, 4, 0, 185, 63, 202, 30]"
proof
  show "UnmarshalBinary new_Packet [0, 5, 0, 3, 4, 0x80, 0, 180, 209, 158, 227]
     = Ok \<lparr>Packet.Type = 5, Tags = [\<lparr>Tag.Type = 4, Data = []\<rparr>]\<rparr>"
    by (simp add: UnmarshalBinary_eq crc_eval stored_checksum_def declared_length_def
        packet_type_def payload_def new_Packet_def)
  show "MarshalBinary \<lparr>Packet.Type = 5, Tags = [\<lparr>Tag.Type = 4, Data = []\<rparr>]\<rparr>
     = Ok [0, 5, 0, 2, 4, 0, 185, 63, 202, 30]"
    by (simp add: MarshalBinary_eq packet_bytes_def tags_bytes_def tag_bytes_def
        byte_of_int_def crc_eval)
qed

section \<open>Where ForEachTuner stops\<close>

text \<open>
  C6. Let the debug query and the callback succeed for every tuner below \<open>k\<close>.
  If the debug query of tuner \<open>k\<close> fails with an error that \<open>IsNotExist\<close>
  accepts, \<open>ForEachTuner\<close> returns nil, and the callback has been called once on each
  of the tuners \<open>0, \<dots>, k - 1\<close>, in this order. If it fails with any other error,
  that error is returned, after the same calls. If the callback fails on tuner \<open>k\<close>,
  its error is returned and no further call is made.
\<close>

theorem ForEachTuner_stops:
  assumes "\<forall>i<k. debug (int i) = None \<and> fn (int i) = None"
  shows "(IsNotExist (debug (int k)) \<longrightarrow>
            ForEachTuner debug fn = Some (None, rounds k @ [DebugCall (int k)]))
       \<and> (debug (int k) = Some e \<and> \<not> IsNotExist (Some e) \<longrightarrow>
            ForEachTuner debug fn = Some (Some e, rounds k @ [DebugCall (int k)]))
       \<and> (debug (int k) = None \<and> fn (int k) = Some e \<longrightarrow>
            ForEachTuner debug fn
              = Some (Some e, rounds k @ [DebugCall (int k), FnCall (int k)]))
       \<and> fn_calls (rounds k @ [DebugCall (int k)]) = map int [0..<k]
       \<and> fn_calls (rounds k @ [DebugCall (int k), FnCall (int k)]) = map int [0..<Suc k]"
proof -
  have start: "ForEachTuner debug fn = ForEachTuner_from debug fn (int k) (rounds k)"
    unfolding ForEachTuner_def using assms by (rule ForEachTuner_from_rounds)
  have 1: "ForEachTuner debug fn = Some (None, rounds k @ [DebugCall (int k)])"
    if "IsNotExist (debug (int k))"
  proof -
    from that obtain e' where "debug (int k) = Some e'"
      by (cases "debug (int k)") (simp_all add: IsNotExist_def)
    with that show ?thesis
      unfolding start by (subst ForEachTuner_from.simps) simp
  qed
  have 2: "ForEachTuner debug fn = Some (Some e, rounds k @ [DebugCall (int k)])"
    if "debug (int k) = Some e" "\<not> IsNotExist (Some e)"
    using that unfolding start by (subst ForEachTuner_from.simps) simp
  have 3: "ForEachTuner debug fn = Some (Some e, rounds k @ [DebugCall (int k), FnCall (int k)])"
    if "debug (int k) = None" "fn (int k) = Some e"
    using that unfolding start by (subst ForEachTuner_from.simps) simp
  show ?thesis
    using 1 2 3 by (simp add: fn_calls_append fn_calls_rounds)
qed

text \<open>
  A device with two tuners: the callback is called on tuners 0 and 1, and the result is
  nil.
\<close>

theorem ForEachTuner_stops_witness:
  "ForEachTuner (\<lambda>i. if i < 2 then None else Some (DeviceError unknownGetSet)) (\<lambda>i. None)
     = Some (None, [DebugCall 0, FnCall 0, DebugCall 1, FnCall 1, DebugCall 2])
   \<and> fn_calls [DebugCall 0, FnCall 0, DebugCall 1, FnCall 1, DebugCall 2] = [0, 1]"
proof -
  have r: "rounds 2 = [DebugCall 0, FnCall 0, DebugCall 1, FnCall 1]"
    by (simp add: rounds_def numeral_2_eq_2)
  show ?thesis
    using ForEachTuner_stops [of 2 "\<lambda>i. if i < 2 then None else Some (DeviceError unknownGetSet)"
        "\<lambda>i. None"]
    by (simp add: r IsNotExist_def)
qed

end
